theory Spec2Isabelle
  imports Complex_Main "HOL-Library.Sublist"
begin

section \<open>The Bing search retriever (dspy/retrieve/bingsearch\_rm.py)\<close>

text \<open>
  The module is one class, \<open>BingSearch\<close>, with a constructor and two methods,
  \<open>forward\<close> and \<open>_search\<close>. Everything it does beyond building lists goes through
  \<open>requests.get\<close>, \<open>print\<close> and the optional import of \<open>bs4\<close>. The embedding
  makes these explicit: the object \<open>self\<close> and the outside world (the log of transport
  calls, the standard output) are passed in and returned; the answers of the network and
  the availability of \<open>bs4\<close> are parameters (an environment); every exception is a
  value of type \<open>error\<close>.
\<close>

subsection \<open>Values and exceptions\<close>

text \<open>
  What \<open>response.json()\<close> returns: \<open>None\<close>, a bool, an int, a float, a str, a list or
  a dict with string keys. A dict is an association list read with \<open>map_of\<close>.
\<close>

datatype json =
    JNull
  | JBool bool
  | JInt int
  | JFloat real
  | JStr string
  | JArr "json list"
  | JObj "(string \<times> json) list"

text \<open>
  The exceptions that can leave the module. \<open>TransportFailure\<close> is whatever
  \<open>requests.get\<close> raises, \<open>MalformedResponse\<close> what \<open>response.json()\<close> raises on a
  body that is not JSON; the others are Python's own.
\<close>

datatype error =
    TransportFailure
  | MalformedResponse
  | KeyError
  | IndexError
  | TypeError
  | ImportError

text \<open>Sequencing of fallible steps: the first exception ends the evaluation.\<close>

definition and_then :: "error + 'a \<Rightarrow> ('a \<Rightarrow> error + 'b) \<Rightarrow> error + 'b" where
  "and_then r f = (case r of Inl e \<Rightarrow> Inl e | Inr x \<Rightarrow> f x)"

text \<open>
  \<open>key in v\<close> for a string \<open>key\<close>: key membership on a dict, element membership on a
  list, substring on a str, \<open>TypeError\<close> on anything else.
\<close>

fun py_in :: "string \<Rightarrow> json \<Rightarrow> error + bool" where
  "py_in key (JObj kvs) = Inr (key \<in> set (map fst kvs))"
| "py_in key (JArr xs) = Inr (JStr key \<in> set xs)"
| "py_in key (JStr s) = Inr (sublist key s)"
| "py_in key v = Inl TypeError"

text \<open>\<open>v[key]\<close> for a string \<open>key\<close>: only a dict accepts it.\<close>

fun getitem_str :: "json \<Rightarrow> string \<Rightarrow> error + json" where
  "getitem_str (JObj kvs) key =
     (case map_of kvs key of None \<Rightarrow> Inl KeyError | Some v \<Rightarrow> Inr v)"
| "getitem_str v key = Inl TypeError"

text \<open>
  \<open>v[i]\<close> for an index \<open>i\<close> produced by \<open>range\<close>, hence not negative. A list and a
  str raise \<open>IndexError\<close> out of range; a dict parsed from JSON has no integer key.
\<close>

fun getitem_int :: "json \<Rightarrow> nat \<Rightarrow> error + json" where
  "getitem_int (JArr xs) i = (if i < length xs then Inr (xs ! i) else Inl IndexError)"
| "getitem_int (JStr s) i = (if i < length s then Inr (JStr [s ! i]) else Inl IndexError)"
| "getitem_int (JObj kvs) i = Inl KeyError"
| "getitem_int v i = Inl TypeError"

text \<open>\<open>range(k)\<close>: empty when \<open>k \<le> 0\<close>.\<close>

definition py_range :: "int \<Rightarrow> nat list" where
  "py_range k = [0..<nat k]"

text \<open>
  A list comprehension \<open>[f(i) for i in is]\<close> whose body may raise: elements are
  evaluated in order and the first exception ends it.
\<close>

fun comprehension :: "('a \<Rightarrow> error + 'b) \<Rightarrow> 'a list \<Rightarrow> error + 'b list" where
  "comprehension f [] = Inr []"
| "comprehension f (i # is) =
     (case f i of
        Inl e \<Rightarrow> Inl e
      | Inr x \<Rightarrow> (case comprehension f is of Inl e \<Rightarrow> Inl e | Inr xs \<Rightarrow> Inr (x # xs)))"

subsection \<open>The adapter, the transport and the world\<close>

datatype BingResultChoice = SNIPPET | WEBPAGE

text \<open>The fields of \<open>self\<close>; \<open>self_k\<close> is the field \<open>self.k\<close>.\<close>

record BingSearch =
  bing_search_v7_subscription_key :: string
  bing_search_v7_endpoint :: string
  bing_result_choice :: BingResultChoice
  search_market :: string
  self_k :: int

text \<open>
  One call of \<open>requests.get(url, headers=..., params=...)\<close>. The url of a page fetch
  is whatever value the response held under \<open>displayUrl\<close>, so it is a \<open>json\<close>.
\<close>

datatype param = PStr string | PInt int

record request =
  req_url :: json
  req_headers :: "(string \<times> string) list"
  req_params :: "(string \<times> param) list"

text \<open>
  A response: its \<open>.text\<close>, and what \<open>.json()\<close> returns (\<open>None\<close> when it raises).
\<close>

record response =
  resp_text :: string
  resp_json :: "json option"

text \<open>
  The environment. \<open>requests_get env h r\<close> is the answer to the call \<open>r\<close> made after
  the calls \<open>h\<close> (\<open>None\<close>: the call raised); \<open>bs4 env\<close> is the text extraction
  \<open>BeautifulSoup(page, "html.parser").get_text()\<close>, \<open>None\<close> when the import fails.
\<close>

record env =
  requests_get :: "request list \<Rightarrow> request \<Rightarrow> response option"
  bs4 :: "(string \<Rightarrow> string) option"

text \<open>
  The world: the transport calls made so far, in order, and the exceptions printed
  by \<open>print("Error in Bing Search:\n", e)\<close>.
\<close>

record world =
  calls :: "request list"
  stdout :: "error list"

record passage =
  long_text :: json

record Prediction =
  passages :: "passage list"

datatype query_input = Str string | Strs "string list"

subsection \<open>\<open>BingSearch.__init__\<close>\<close>

text \<open>
  Modelled from the spec: \<open>dspy.Retrieve.__init__\<close>, called as
  \<open>super().__init__(k=k)\<close>, is not in the source file. The spec lists the default result
  count among the configuration fields and says that construction makes no network call:
  the call stores \<open>k\<close>.
\<close>

definition Retrieve_init :: "int \<Rightarrow> BingSearch \<Rightarrow> BingSearch" where
  "Retrieve_init k' self = self\<lparr>self_k := k'\<rparr>"

text \<open>
  The constructor. \<open>search_market\<close> and \<open>k\<close> have defaults (\<open>None\<close>: the caller
  left the argument out). No statement of the body raises and none calls the transport.
\<close>

definition BingSearch_init ::
  "string \<Rightarrow> string \<Rightarrow> BingResultChoice \<Rightarrow> string option \<Rightarrow> int option \<Rightarrow> world
     \<Rightarrow> (error + BingSearch) \<times> world" where
  "BingSearch_init subscription_key endpoint choice market_arg k_arg w =
     (let market = (case market_arg of None \<Rightarrow> ''en-us'' | Some m \<Rightarrow> m);
          k' = (case k_arg of None \<Rightarrow> 3 | Some n \<Rightarrow> n);
          endpoint' = (if \<not> sublist ''/v7.0/search'' endpoint
                       then endpoint @ ''/v7.0/search'' else endpoint);
          self = \<lparr>bing_search_v7_subscription_key = subscription_key,
                  bing_search_v7_endpoint = endpoint',
                  bing_result_choice = choice,
                  search_market = market,
                  self_k = k'\<rparr>
      in (Inr (Retrieve_init k' self), w))"

subsection \<open>\<open>BingSearch._search\<close>\<close>

text \<open>The primary request of a query: the credential header and the three parameters.\<close>

definition search_request :: "BingSearch \<Rightarrow> string \<Rightarrow> int \<Rightarrow> request" where
  "search_request self query k' =
     \<lparr>req_url = JStr (bing_search_v7_endpoint self),
      req_headers = [(''Ocp-Apim-Subscription-Key'', bing_search_v7_subscription_key self)],
      req_params = [(''q'', PStr query), (''count'', PInt k'), (''mkt'', PStr (search_market self))]\<rparr>"

definition page_request :: "json \<Rightarrow> request" where
  "page_request u = \<lparr>req_url = u, req_headers = [], req_params = []\<rparr>"

text \<open>\<open>response_json["webPages"]["value"][i][field]\<close>, evaluated left to right.\<close>

definition result_field :: "json \<Rightarrow> string \<Rightarrow> nat \<Rightarrow> error + json" where
  "result_field response_json field i =
     and_then (getitem_str response_json ''webPages'') (\<lambda>web_pages.
     and_then (getitem_str web_pages ''value'') (\<lambda>value.
     and_then (getitem_int value i) (\<lambda>entry.
     getitem_str entry field)))"

text \<open>
  \<open>[requests.get(url).text for url in urls]\<close>: one call per url, in order, each
  recorded; the first call that raises ends the comprehension.
\<close>

fun fetch_pages :: "env \<Rightarrow> json list \<Rightarrow> world \<Rightarrow> (error + string list) \<times> world" where
  "fetch_pages env [] w = (Inr [], w)"
| "fetch_pages env (u # us) w =
     (let w1 = w\<lparr>calls := calls w @ [page_request u]\<rparr> in
      case requests_get env (calls w) (page_request u) of
        None \<Rightarrow> (Inl TransportFailure, w1)
      | Some page \<Rightarrow>
          (case fetch_pages env us w1 of
             (Inl e, w2) \<Rightarrow> (Inl e, w2)
           | (Inr pages, w2) \<Rightarrow> (Inr (resp_text page # pages), w2)))"

text \<open>
  The method \<open>_search\<close>. It returns the passages' texts: in \<open>SNIPPET\<close> mode the values
  under \<open>snippet\<close>, in \<open>WEBPAGE\<close> mode the extracted page texts (Python strs).
\<close>

definition search ::
  "env \<Rightarrow> string \<Rightarrow> int \<Rightarrow> BingSearch \<times> world \<Rightarrow> (error + json list) \<times> BingSearch \<times> world" where
  "search env query k' s =
     (case s of (self, w) \<Rightarrow>
      (let req = search_request self query k';
           w1 = w\<lparr>calls := calls w @ [req]\<rparr> in
       (case requests_get env (calls w) req of
        None \<Rightarrow> (Inl TransportFailure, self, w1\<lparr>stdout := stdout w1 @ [TransportFailure]\<rparr>)
      | Some resp \<Rightarrow>
          (case resp_json resp of
             None \<Rightarrow> (Inl MalformedResponse, self, w1)
           | Some response_json \<Rightarrow>
               (case py_in ''webPages'' response_json of
                  Inl e \<Rightarrow> (Inl e, self, w1)
                | Inr present \<Rightarrow>
                    (if \<not> present then (Inr [], self, w1)
                     else if bing_result_choice self = WEBPAGE then
                       (case comprehension (result_field response_json ''displayUrl'') (py_range k') of
                          Inl e \<Rightarrow> (Inl e, self, w1)
                        | Inr urls \<Rightarrow>
                            (case fetch_pages env urls w1 of
                               (Inl e, w2) \<Rightarrow> (Inl e, self, w2)
                             | (Inr pages, w2) \<Rightarrow>
                                 (case bs4 env of
                                    None \<Rightarrow> (Inl ImportError, self, w2)
                                  | Some get_text \<Rightarrow>
                                      (Inr (map (\<lambda>page. JStr (get_text page)) pages), self, w2))))
                     else
                       (case comprehension (result_field response_json ''snippet'') (py_range k') of
                          Inl e \<Rightarrow> (Inl e, self, w1)
                        | Inr snippets \<Rightarrow> (Inr snippets, self, w1))))))))"

subsection \<open>\<open>BingSearch.forward\<close>\<close>

text \<open>The loop over the queries, with the accumulator \<open>passages\<close>.\<close>

fun forward_loop ::
  "env \<Rightarrow> string list \<Rightarrow> int \<Rightarrow> passage list \<Rightarrow> BingSearch \<times> world
     \<Rightarrow> (error + Prediction) \<times> BingSearch \<times> world" where
  "forward_loop env [] k' acc s = (Inr \<lparr>passages = acc\<rparr>, s)"
| "forward_loop env (query # rest) k' acc s =
     (case search env query k' s of
        (Inl e, s') \<Rightarrow> (Inl e, s')
      | (Inr results, s') \<Rightarrow>
          forward_loop env rest k' (acc @ map (\<lambda>p. \<lparr>long_text = p\<rparr>) results) s')"

definition effective_k :: "BingSearch \<Rightarrow> int option \<Rightarrow> int" where
  "effective_k self k_arg = (case k_arg of Some k' \<Rightarrow> k' | None \<Rightarrow> self_k self)"

definition surviving :: "query_input \<Rightarrow> string list" where
  "surviving query_or_queries =
     (let queries = (case query_or_queries of Str q \<Rightarrow> [q] | Strs qs \<Rightarrow> qs)
      in filter (\<lambda>q. q \<noteq> []) queries)"

definition forward ::
  "env \<Rightarrow> query_input \<Rightarrow> int option \<Rightarrow> BingSearch \<times> world
     \<Rightarrow> (error + Prediction) \<times> BingSearch \<times> world" where
  "forward env query_or_queries k_arg s =
     forward_loop env (surviving query_or_queries) (effective_k (fst s) k_arg) [] s"

subsection \<open>Reading the log of transport calls\<close>

text \<open>
  \<open>all_succeed env h cs\<close>: each of the calls \<open>cs\<close>, made in this order after the
  calls \<open>h\<close>, was answered (none raised).
\<close>

fun all_succeed :: "env \<Rightarrow> request list \<Rightarrow> request list \<Rightarrow> bool" where
  "all_succeed env h [] = True"
| "all_succeed env h (c # cs) = (requests_get env h c \<noteq> None \<and> all_succeed env (h @ [c]) cs)"

text \<open>
  \<open>trace_ok env h new failed\<close>: the calls \<open>new\<close> made after \<open>h\<close> are those of a run
  that stops at the first call that raises. If the run failed, the last call raised and
  the calls before it were answered; otherwise all were answered.
\<close>

definition trace_ok :: "env \<Rightarrow> request list \<Rightarrow> request list \<Rightarrow> bool \<Rightarrow> bool" where
  "trace_ok env h new failed =
     (if failed
      then new \<noteq> [] \<and> all_succeed env h (butlast new)
           \<and> requests_get env (h @ butlast new) (last new) = None
      else all_succeed env h new)"

subsection \<open>What the provider hands out, in the words of the specification\<close>

text \<open>
  The definitions of this subsection are not translated from the source: they say, for
  the statement about \<open>SNIPPET\<close> mode, what it means that a response holds the results
  key with at least \<open>n\<close> snippet entries, and which snippets those are.

  \<open>result_entries\<close>: the list of results of a body, when the body is an object whose
  \<open>webPages\<close> member is an object whose \<open>value\<close> member is a list.
\<close>

definition result_entries :: "json \<Rightarrow> json list option" where
  "result_entries rj =
     (case rj of
        JObj members \<Rightarrow>
          (case map_of members ''webPages'' of
             Some (JObj web_pages) \<Rightarrow>
               (case map_of web_pages ''value'' of Some (JArr entries) \<Rightarrow> Some entries | _ \<Rightarrow> None)
           | _ \<Rightarrow> None)
      | _ \<Rightarrow> None)"

text \<open>
  \<open>snippet_of\<close>: the snippet field of a result entry.
\<close>

definition snippet_of :: "json \<Rightarrow> json option" where
  "snippet_of entry = (case entry of JObj kvs \<Rightarrow> map_of kvs ''snippet'' | _ \<Rightarrow> None)"

text \<open>
  \<open>first_snippets n rj\<close>: the snippet fields of the first \<open>n\<close> results of the body, in
  the order of the body; \<open>None\<close> unless the body holds at least \<open>n\<close> results and each of
  the first \<open>n\<close> has a snippet field.
\<close>

definition first_snippets :: "nat \<Rightarrow> json \<Rightarrow> json list option" where
  "first_snippets n rj =
     (case result_entries rj of
        None \<Rightarrow> None
      | Some entries \<Rightarrow>
          if n \<le> length entries \<and> list_all (\<lambda>e. snippet_of e \<noteq> None) (take n entries)
          then Some (map (\<lambda>e. the (snippet_of e)) (take n entries))
          else None)"

text \<open>
  \<open>response_snippets env h c n\<close>: the same for the answer to the call \<open>c\<close> made after
  the calls \<open>h\<close>; \<open>None\<close> also when the call raises or the body is not JSON.
\<close>

definition response_snippets :: "env \<Rightarrow> request list \<Rightarrow> request \<Rightarrow> nat \<Rightarrow> json list option" where
  "response_snippets env h c n =
     (case requests_get env h c of
        None \<Rightarrow> None
      | Some resp \<Rightarrow> (case resp_json resp of None \<Rightarrow> None | Some rj \<Rightarrow> first_snippets n rj))"

text \<open>
  \<open>provider_snippets env self k h qs\<close>: the snippets the provider hands out for the
  queries \<open>qs\<close>, asked one after the other starting after the calls \<open>h\<close>: one list of
  \<open>k\<close> snippets per query. It is \<open>None\<close> as soon as one of the responses does not hold
  \<open>k\<close> snippet entries.
\<close>

fun provider_snippets ::
  "env \<Rightarrow> BingSearch \<Rightarrow> int \<Rightarrow> request list \<Rightarrow> string list \<Rightarrow> json list list option" where
  "provider_snippets env self k' h [] = Some []"
| "provider_snippets env self k' h (q # qs) =
     (case response_snippets env h (search_request self q k') (nat k') of
        None \<Rightarrow> None
      | Some ss \<Rightarrow>
          (case provider_snippets env self k' (h @ [search_request self q k']) qs of
             None \<Rightarrow> None
           | Some sss \<Rightarrow> Some (ss # sss)))"

text \<open>
  \<open>holds_results_key env self k h qs\<close>: each of the queries \<open>qs\<close>, asked one after
  the other starting after the calls \<open>h\<close>, is answered with a body that parses and
  contains the results key.
\<close>

fun holds_results_key :: "env \<Rightarrow> BingSearch \<Rightarrow> int \<Rightarrow> request list \<Rightarrow> string list \<Rightarrow> bool" where
  "holds_results_key env self k' h [] = True"
| "holds_results_key env self k' h (q # qs) =
     ((case requests_get env h (search_request self q k') of
         None \<Rightarrow> False
       | Some resp \<Rightarrow>
           (case resp_json resp of
              None \<Rightarrow> False
            | Some rj \<Rightarrow> py_in ''webPages'' rj = Inr True))
      \<and> holds_results_key env self k' (h @ [search_request self q k']) qs)"

subsection \<open>Example values\<close>

text \<open>
  Concrete inputs at which the theorems below are instantiated: an adapter, a world in
  which nothing has happened yet, a response body with two results, and a transport that
  answers every call with the same body.
\<close>

definition example_adapter :: "BingResultChoice \<Rightarrow> BingSearch" where
  "example_adapter choice =
     \<lparr>bing_search_v7_subscription_key = ''key'',
      bing_search_v7_endpoint = ''https://api.bing.microsoft.com/v7.0/search'',
      bing_result_choice = choice,
      search_market = ''en-us'',
      self_k = 3\<rparr>"

definition empty_world :: world where
  "empty_world = \<lparr>calls = [], stdout = []\<rparr>"

definition example_body :: json where
  "example_body =
     JObj [(''webPages'', JObj [(''value'', JArr
       [JObj [(''snippet'', JStr ''first''), (''displayUrl'', JStr ''a.example'')],
        JObj [(''snippet'', JStr ''second''), (''displayUrl'', JStr ''b.example'')]])])]"

definition stub_env :: "json \<Rightarrow> (string \<Rightarrow> string) option \<Rightarrow> env" where
  "stub_env body extractor =
     \<lparr>requests_get = (\<lambda>h r. Some \<lparr>resp_text = ''page'', resp_json = Some body\<rparr>),
      bs4 = extractor\<rparr>"

text \<open>A transport whose call number \<open>n\<close> (counted from 0) raises; the others are
  answered with the example body. The text extraction is the identity.\<close>

definition failing_env :: "nat \<Rightarrow> env" where
  "failing_env n =
     \<lparr>requests_get = (\<lambda>h r. if length h = n then None
                             else Some \<lparr>resp_text = ''page'', resp_json = Some example_body\<rparr>),
      bs4 = Some (\<lambda>page. page)\<rparr>"

text \<open>
  A transport that answers the first call with the example body and every later call
  with a body of three results.
\<close>

definition two_bodies_env :: env where
  "two_bodies_env =
     \<lparr>requests_get = (\<lambda>h r.
        if h = [] then Some \<lparr>resp_text = ''page'', resp_json = Some example_body\<rparr>
        else Some \<lparr>resp_text = ''page'', resp_json = Some (JObj [(''webPages'', JObj [(''value'', JArr
               [JObj [(''snippet'', JStr ''third'')], JObj [(''snippet'', JStr ''fourth'')],
                JObj [(''snippet'', JStr ''fifth'')]])])])\<rparr>),
      bs4 = None\<rparr>"

section \<open>Properties\<close>

subsection \<open>Auxiliary facts\<close>

lemma all_succeed_append:
  "all_succeed env h (xs @ ys) = (all_succeed env h xs \<and> all_succeed env (h @ xs) ys)"
  by (induction xs arbitrary: h) auto

lemma trace_ok_Nil: "trace_ok env h [] False"
  by (simp add: trace_ok_def)

lemma trace_ok_append:
  "all_succeed env h a \<Longrightarrow> trace_ok env (h @ a) b failed \<Longrightarrow> trace_ok env h (a @ b) failed"
  by (auto simp: trace_ok_def all_succeed_append butlast_append)

lemma trace_ok_single_fail:
  "requests_get env h c = None \<Longrightarrow> trace_ok env h [c] True"
  by (simp add: trace_ok_def)

lemma trace_ok_Cons:
  "requests_get env h c \<noteq> None \<Longrightarrow> trace_ok env (h @ [c]) b failed \<Longrightarrow> trace_ok env h (c # b) failed"
  using trace_ok_append[of env h "[c]" b failed] by simp

lemma fetch_pages_trace:
  "fetch_pages env us w = (r, w') \<Longrightarrow>
     \<exists>new. calls w' = calls w @ new \<and> stdout w' = stdout w
       \<and> (\<forall>c\<in>set new. req_params c = [])
       \<and> trace_ok env (calls w) new (r = Inl TransportFailure)
       \<and> (\<forall>e. r = Inl e \<longrightarrow> e = TransportFailure)"
proof (induction us arbitrary: w r w')
  case Nil
  then show ?case by (auto simp: trace_ok_Nil)
next
  case (Cons u us)
  let ?w1 = "w\<lparr>calls := calls w @ [page_request u]\<rparr>"
  show ?case
  proof (cases "requests_get env (calls w) (page_request u)")
    case None
    with Cons.prems have "r = Inl TransportFailure" "w' = ?w1" by (auto simp: Let_def)
    with None show ?thesis
      by (auto simp: trace_ok_single_fail page_request_def intro!: exI[of _ "[page_request u]"])
  next
    case (Some page)
    obtain r2 w2 where f: "fetch_pages env us ?w1 = (r2, w2)" by (cases "fetch_pages env us ?w1") auto
    from Cons.IH[OF f] obtain new where n: "calls w2 = calls ?w1 @ new" "stdout w2 = stdout ?w1"
      "\<forall>c\<in>set new. req_params c = []" "trace_ok env (calls ?w1) new (r2 = Inl TransportFailure)"
      "\<forall>e. r2 = Inl e \<longrightarrow> e = TransportFailure" by blast
    from Cons.prems Some f have w': "w' = w2" and rr: "(r = Inl TransportFailure) = (r2 = Inl TransportFailure)"
      "\<forall>e. r = Inl e \<longrightarrow> r2 = Inl e"
      by (auto simp: Let_def split: sum.splits)
    have "trace_ok env (calls w) (page_request u # new) (r = Inl TransportFailure)"
      using Some n(4) rr by (intro trace_ok_Cons) auto
    with n w' rr show ?thesis
      by (intro exI[of _ "page_request u # new"]) (auto simp: page_request_def)
  qed
qed


lemma and_then_Inl: "and_then r f = Inl e \<Longrightarrow> r = Inl e \<or> (\<exists>x. r = Inr x \<and> f x = Inl e)"
  by (auto simp: and_then_def split: sum.splits)

lemma getitem_str_error: "getitem_str v key = Inl e \<Longrightarrow> e = KeyError \<or> e = TypeError"
  by (cases v) (auto split: option.splits)

lemma getitem_int_error: "getitem_int v i = Inl e \<Longrightarrow> e = KeyError \<or> e = TypeError \<or> e = IndexError"
  by (cases v) (auto split: if_splits)

lemma result_field_error:
  "result_field rj field i = Inl e \<Longrightarrow> e = KeyError \<or> e = TypeError \<or> e = IndexError"
  unfolding result_field_def
  by (auto dest!: and_then_Inl dest: getitem_str_error getitem_int_error)

lemma comprehension_error:
  "comprehension f xs = Inl e \<Longrightarrow> \<exists>x\<in>set xs. f x = Inl e"
  by (induction xs) (auto split: sum.splits)

lemma py_in_error: "py_in key v = Inl e \<Longrightarrow> e = TypeError"
  by (cases v) auto

lemma extraction_error:
  "comprehension (result_field rj field) xs = Inl e \<Longrightarrow> e = KeyError \<or> e = TypeError \<or> e = IndexError"
  by (blast dest: comprehension_error result_field_error)

lemma search_self: "search env q k' (self, w) = (r, self', w') \<Longrightarrow> self' = self"
  by (auto simp: search_def Let_def split: option.splits sum.splits if_splits prod.splits)

lemma search_trace:
  assumes "search env q k' (self, w) = (r, self', w')"
  shows "\<exists>new. calls w' = calls w @ search_request self q k' # new
       \<and> (\<forall>c\<in>set new. req_params c = [])
       \<and> trace_ok env (calls w) (search_request self q k' # new) (r = Inl TransportFailure)"
proof -
  let ?req = "search_request self q k'"
  let ?w1 = "w\<lparr>calls := calls w @ [?req]\<rparr>"
  show ?thesis
  proof (cases "requests_get env (calls w) ?req")
    case None
    with assms have "r = Inl TransportFailure" "calls w' = calls w @ [?req]"
      by (auto simp: search_def Let_def)
    with None show ?thesis by (auto simp: trace_ok_single_fail)
  next
    case (Some resp)
    have direct: ?thesis if "calls w' = calls w @ [?req]" "r \<noteq> Inl TransportFailure"
      using that Some by (auto simp: trace_ok_def)
    show ?thesis
    proof (cases "\<exists>rj urls. resp_json resp = Some rj \<and> py_in ''webPages'' rj = Inr True
              \<and> bing_result_choice self = WEBPAGE
              \<and> comprehension (result_field rj ''displayUrl'') (py_range k') = Inr urls")
      case False
      with assms Some have "calls w' = calls w @ [?req]" "r \<noteq> Inl TransportFailure"
        by (auto simp: search_def Let_def split: option.splits sum.splits if_splits
            dest: py_in_error extraction_error)
      then show ?thesis by (rule direct)
    next
      case True
      then obtain rj urls where t: "resp_json resp = Some rj" "py_in ''webPages'' rj = Inr True"
        "bing_result_choice self = WEBPAGE"
        "comprehension (result_field rj ''displayUrl'') (py_range k') = Inr urls" by blast
      obtain r2 w2 where f: "fetch_pages env urls ?w1 = (r2, w2)"
        by (cases "fetch_pages env urls ?w1") auto
      from fetch_pages_trace[OF f] obtain new where n: "calls w2 = calls ?w1 @ new"
        "\<forall>c\<in>set new. req_params c = []" "trace_ok env (calls ?w1) new (r2 = Inl TransportFailure)"
        "\<forall>e. r2 = Inl e \<longrightarrow> e = TransportFailure" by blast
      from assms Some t f have w': "w' = w2" and rr: "(r = Inl TransportFailure) = (r2 = Inl TransportFailure)"
        using n(4) by (auto simp: search_def Let_def split: option.splits sum.splits)
      have "trace_ok env (calls w) (?req # new) (r = Inl TransportFailure)"
        using Some n(3) rr by (intro trace_ok_Cons) auto
      with n w' show ?thesis by auto
    qed
  qed
qed

lemma fetch_pages_error: "fetch_pages env us w = (Inl e, w') \<Longrightarrow> e = TransportFailure"
  using fetch_pages_trace by blast

lemma search_ImportError:
  assumes "search env q k' (self, w) = (Inl ImportError, self', w')"
  shows "bing_result_choice self = WEBPAGE \<and> bs4 env = None"
  using assms
  by (auto simp: search_def Let_def split: option.splits sum.splits if_splits prod.splits
      dest: py_in_error extraction_error fetch_pages_error)

lemma search_self_k:
  "search env q k' (self\<lparr>self_k := x\<rparr>, w) =
     (case search env q k' (self, w) of (r, s', w') \<Rightarrow> (r, s'\<lparr>self_k := x\<rparr>, w'))"
  by (auto simp: search_def search_request_def Let_def split: option.splits sum.splits prod.splits)


lemma forward_loop_self:
  "forward_loop env qs k' acc (self, w) = (r, self', w') \<Longrightarrow> self' = self"
proof (induction qs arbitrary: acc w)
  case Nil
  then show ?case by simp
next
  case (Cons q qs)
  obtain r1 s1 w1 where s: "search env q k' (self, w) = (r1, s1, w1)"
    by (cases "search env q k' (self, w)") auto
  then have s1: "s1 = self" by (rule search_self)
  show ?case
  proof (cases r1)
    case (Inl e)
    with Cons.prems s s1 show ?thesis by simp
  next
    case (Inr res)
    with Cons.prems s s1
    have "forward_loop env qs k' (acc @ map (\<lambda>p. \<lparr>long_text = p\<rparr>) res) (self, w1) = (r, self', w')"
      by simp
    then show ?thesis by (rule Cons.IH)
  qed
qed

lemma forward_self:
  "forward env qi ko (self, w) = (r, self', w') \<Longrightarrow> self' = self"
  unfolding forward_def by (rule forward_loop_self)

lemma forward_loop_ImportError:
  "forward_loop env qs k' acc (self, w) = (Inl ImportError, self', w') \<Longrightarrow>
     bing_result_choice self = WEBPAGE \<and> bs4 env = None"
proof (induction qs arbitrary: acc w)
  case Nil
  then show ?case by simp
next
  case (Cons q qs)
  obtain r1 s1 w1 where s: "search env q k' (self, w) = (r1, s1, w1)"
    by (cases "search env q k' (self, w)") auto
  then have s1: "s1 = self" by (rule search_self)
  show ?case
  proof (cases r1)
    case (Inl e)
    with Cons.prems s have "search env q k' (self, w) = (Inl ImportError, self', w')" by simp
    then show ?thesis by (rule search_ImportError)
  next
    case (Inr res)
    with Cons.prems s s1
    have "forward_loop env qs k' (acc @ map (\<lambda>p. \<lparr>long_text = p\<rparr>) res) (self, w1) = (Inl ImportError, self', w')"
      by simp
    then show ?thesis by (rule Cons.IH)
  qed
qed

lemma forward_loop_self_k:
  "forward_loop env qs k' acc (self\<lparr>self_k := x\<rparr>, w) =
     (case forward_loop env qs k' acc (self, w) of (r, s', w') \<Rightarrow> (r, s'\<lparr>self_k := x\<rparr>, w'))"
proof (induction qs arbitrary: acc w)
  case Nil
  then show ?case by simp
next
  case (Cons q qs)
  obtain r1 s1 w1 where s: "search env q k' (self, w) = (r1, s1, w1)"
    by (cases "search env q k' (self, w)") auto
  then have s1: "s1 = self" by (rule search_self)
  from s s1 have s': "search env q k' (self\<lparr>self_k := x\<rparr>, w) = (r1, self\<lparr>self_k := x\<rparr>, w1)"
    by (simp add: search_self_k)
  show ?case
    by (cases r1) (simp_all add: s s' s1 Cons.IH)
qed

lemma all_succeed_nth:
  "all_succeed env h cs = (\<forall>n<length cs. requests_get env (h @ take n cs) (cs ! n) \<noteq> None)"
  by (induction cs arbitrary: h) (auto simp: less_Suc_eq_0_disj)

lemma trace_ok_first_failure:
  assumes "trace_ok env h new failed" "n < length new"
    "requests_get env (h @ take n new) (new ! n) = None"
  shows "failed \<and> Suc n = length new"
proof (cases failed)
  case False
  with assms show ?thesis by (auto simp: trace_ok_def all_succeed_nth)
next
  case True
  with assms(1) have ne: "new \<noteq> []" and ok: "all_succeed env h (butlast new)"
    by (auto simp: trace_ok_def)
  have "\<not> n < length (butlast new)"
  proof
    assume l: "n < length (butlast new)"
    then have "take n (butlast new) = take n new" "butlast new ! n = new ! n"
      by (simp_all add: take_butlast nth_butlast)
    with ok l assms(3) show False by (auto simp: all_succeed_nth)
  qed
  with assms(2) True show ?thesis by simp
qed

lemma forward_loop_trace:
  "forward_loop env qs k' acc (self, w) = (r, self', w') \<Longrightarrow>
   \<exists>new. calls w' = calls w @ new
     \<and> trace_ok env (calls w) new (r = Inl TransportFailure)
     \<and> (\<forall>c\<in>set new. req_params c = [] \<or> (\<exists>q\<in>set qs. c = search_request self q k'))
     \<and> (\<forall>p. r = Inr p \<longrightarrow>
           filter (\<lambda>c. req_params c \<noteq> []) new = map (\<lambda>q. search_request self q k') qs)"
proof (induction qs arbitrary: acc w)
  case Nil
  then show ?case by (auto simp: trace_ok_Nil)
next
  case (Cons q qs)
  let ?req = "search_request self q k'"
  obtain r1 s1 w1 where s: "search env q k' (self, w) = (r1, s1, w1)"
    by (cases "search env q k' (self, w)") auto
  then have s1: "s1 = self" by (rule search_self)
  from search_trace[OF s] obtain new1 where n1: "calls w1 = calls w @ ?req # new1"
    "\<forall>c\<in>set new1. req_params c = []"
    "trace_ok env (calls w) (?req # new1) (r1 = Inl TransportFailure)" by blast
  have p: "req_params ?req \<noteq> []" by (simp add: search_request_def)
  show ?case
  proof (cases r1)
    case (Inl e)
    with Cons.prems s have "r = Inl e" "w' = w1" by simp_all
    with n1 Inl show ?thesis
      by (intro exI[of _ "?req # new1"]) auto
  next
    case (Inr res)
    with Cons.prems s s1
    have f: "forward_loop env qs k' (acc @ map (\<lambda>p. \<lparr>long_text = p\<rparr>) res) (self, w1) = (r, self', w')"
      by simp
    from Cons.IH[OF f] obtain new2 where n2: "calls w' = calls w1 @ new2"
      "trace_ok env (calls w1) new2 (r = Inl TransportFailure)"
      "\<forall>c\<in>set new2. req_params c = [] \<or> (\<exists>q\<in>set qs. c = search_request self q k')"
      "\<forall>p. r = Inr p \<longrightarrow>
           filter (\<lambda>c. req_params c \<noteq> []) new2 = map (\<lambda>q. search_request self q k') qs" by blast
    from n1(3) Inr have ok1: "all_succeed env (calls w) (?req # new1)"
      by (simp add: trace_ok_def)
    have t: "trace_ok env (calls w) ((?req # new1) @ new2) (r = Inl TransportFailure)"
      using ok1 n2(2) n1(1) by (intro trace_ok_append) simp_all
    have fl: "filter (\<lambda>c. req_params c \<noteq> []) new1 = []"
      using n1(2) by (simp add: filter_empty_conv)
    show ?thesis
      using n1(1,2) n2(1,3,4) t p fl
      by (intro exI[of _ "(?req # new1) @ new2"]) auto
  qed
qed

lemma comprehension_all_Inr:
  "\<forall>i\<in>set is. f i = Inr (g i) \<Longrightarrow> comprehension f is = Inr (map g is)"
  by (induction "is") auto

lemma first_snippets_length: "first_snippets n rj = Some ss \<Longrightarrow> length ss = n"
  by (auto simp: first_snippets_def split: option.splits if_splits)

lemma first_snippets_extract:
  assumes "first_snippets n rj = Some ss"
  shows "py_in ''webPages'' rj = Inr True"
    and "comprehension (result_field rj ''snippet'') [0..<n] = Inr ss"
proof -
  from assms obtain entries where e: "result_entries rj = Some entries"
    and n: "n \<le> length entries"
    and all: "list_all (\<lambda>e. snippet_of e \<noteq> None) (take n entries)"
    and ss: "ss = map (\<lambda>e. the (snippet_of e)) (take n entries)"
    by (auto simp: first_snippets_def split: option.splits if_splits)
  from e obtain members web_pages where rj: "rj = JObj members"
    and wp: "map_of members ''webPages'' = Some (JObj web_pages)"
    and v: "map_of web_pages ''value'' = Some (JArr entries)"
    by (auto simp: result_entries_def split: json.splits option.splits)
  from wp have "''webPages'' \<in> fst ` set members"
    by (auto dest: map_of_SomeD intro: rev_image_eqI)
  with rj show "py_in ''webPages'' rj = Inr True" by simp
  have f: "result_field rj ''snippet'' i = Inr (the (snippet_of (entries ! i)))" if "i < n" for i
  proof -
    from that n have i: "i < length entries" by simp
    with that all have "snippet_of (entries ! i) \<noteq> None"
      by (auto simp: list_all_length)
    then obtain kvs s where "entries ! i = JObj kvs" "map_of kvs ''snippet'' = Some s"
      by (auto simp: snippet_of_def split: json.splits)
    with rj wp v i show ?thesis
      by (simp add: result_field_def and_then_def snippet_of_def)
  qed
  have "comprehension (result_field rj ''snippet'') [0..<n]
      = Inr (map (\<lambda>i. the (snippet_of (entries ! i))) [0..<n])"
    by (rule comprehension_all_Inr) (simp add: f)
  also have "map (\<lambda>i. the (snippet_of (entries ! i))) [0..<n] = ss"
    using n by (auto simp: ss intro!: nth_equalityI)
  finally show "comprehension (result_field rj ''snippet'') [0..<n] = Inr ss" .
qed

lemma search_snippets:
  assumes "bing_result_choice self = SNIPPET"
    and "response_snippets env (calls w) (search_request self q k') (nat k') = Some ss"
  shows "search env q k' (self, w)
           = (Inr ss, self, w\<lparr>calls := calls w @ [search_request self q k']\<rparr>)"
proof -
  from assms(2) obtain resp rj where r: "requests_get env (calls w) (search_request self q k') = Some resp"
    "resp_json resp = Some rj" "first_snippets (nat k') rj = Some ss"
    by (auto simp: response_snippets_def split: option.splits)
  from first_snippets_extract[OF r(3)] r(1,2) assms(1) show ?thesis
    by (simp add: search_def Let_def py_range_def)
qed

lemma forward_loop_snippets:
  assumes "bing_result_choice self = SNIPPET"
  shows "provider_snippets env self k' (calls w) qs = Some sss \<Longrightarrow>
     forward_loop env qs k' acc (self, w)
       = (Inr \<lparr>passages = acc @ map (\<lambda>s. \<lparr>long_text = s\<rparr>) (concat sss)\<rparr>, self,
          w\<lparr>calls := calls w @ map (\<lambda>q. search_request self q k') qs\<rparr>)"
proof (induction qs arbitrary: w acc sss)
  case Nil
  then show ?case by simp
next
  case (Cons q qs)
  let ?req = "search_request self q k'"
  let ?w1 = "w\<lparr>calls := calls w @ [?req]\<rparr>"
  from Cons.prems obtain ss rest where
    s: "response_snippets env (calls w) ?req (nat k') = Some ss"
    and r: "provider_snippets env self k' (calls w @ [?req]) qs = Some rest"
    and sss: "sss = ss # rest"
    by (auto split: option.splits)
  have 1: "search env q k' (self, w) = (Inr ss, self, ?w1)"
    using assms s by (rule search_snippets)
  from r have "provider_snippets env self k' (calls ?w1) qs = Some rest" by simp
  from Cons.IH[OF this] 1 sss show ?case by simp
qed

lemma provider_snippets_shape:
  "provider_snippets env self k' h qs = Some sss \<Longrightarrow>
     length sss = length qs \<and> (\<forall>ss\<in>set sss. length ss = nat k')"
proof (induction qs arbitrary: h sss)
  case Nil
  then show ?case by simp
next
  case (Cons q qs)
  then show ?case
    by (fastforce simp: response_snippets_def split: option.splits dest: first_snippets_length)
qed

lemma length_concat_uniform:
  "\<forall>xs\<in>set xss. length xs = n \<Longrightarrow> length (concat xss) = length xss * n"
  by (induction xss) auto

lemma search_nonpositive:
  assumes "k' \<le> 0"
    and "bing_result_choice self = WEBPAGE \<longrightarrow> bs4 env \<noteq> None"
    and "requests_get env (calls w) (search_request self q k') = Some resp"
    and "resp_json resp = Some rj"
    and "py_in ''webPages'' rj = Inr True"
  shows "search env q k' (self, w)
           = (Inr [], self, w\<lparr>calls := calls w @ [search_request self q k']\<rparr>)"
proof -
  have r: "py_range k' = []" using assms(1) by (simp add: py_range_def)
  show ?thesis using assms(2-5) r by (auto simp: search_def Let_def)
qed

lemma forward_loop_nonpositive:
  assumes "k' \<le> 0"
    and "bing_result_choice self = WEBPAGE \<longrightarrow> bs4 env \<noteq> None"
  shows "holds_results_key env self k' (calls w) qs \<Longrightarrow>
     forward_loop env qs k' acc (self, w)
       = (Inr \<lparr>passages = acc\<rparr>, self,
          w\<lparr>calls := calls w @ map (\<lambda>q. search_request self q k') qs\<rparr>)"
proof (induction qs arbitrary: w)
  case Nil
  then show ?case by simp
next
  case (Cons q qs)
  let ?req = "search_request self q k'"
  let ?w1 = "w\<lparr>calls := calls w @ [?req]\<rparr>"
  from Cons.prems obtain resp rj where a: "requests_get env (calls w) ?req = Some resp"
    "resp_json resp = Some rj" "py_in ''webPages'' rj = Inr True"
    and rest: "holds_results_key env self k' (calls w @ [?req]) qs"
    by (auto split: option.splits)
  have s: "search env q k' (self, w) = (Inr [], self, ?w1)"
    using assms a by (rule search_nonpositive)
  from rest have "holds_results_key env self k' (calls ?w1) qs" by simp
  from Cons.IH[OF this] s show ?case by simp
qed

lemmas example_defs =
  example_adapter_def empty_world_def example_body_def stub_env_def failing_env_def

lemmas run_defs =
  forward_def surviving_def effective_k_def search_def search_request_def
  py_range_def result_field_def and_then_def page_request_def Let_def

subsection \<open>Construction\<close>

text \<open>
  C4 (as amended). The claim says that construction fails when the credential or the
  endpoint is empty. The constructor checks neither: for every credential and endpoint
  string, the empty ones included, it returns an adapter holding the five fields, and it
  leaves the world, hence the log of transport calls, as it was.
\<close>

theorem construction_total:
  "BingSearch_init subscription_key endpoint choice market_arg k_arg w =
     (Inr \<lparr>bing_search_v7_subscription_key = subscription_key,
           bing_search_v7_endpoint =
             (if sublist ''/v7.0/search'' endpoint then endpoint else endpoint @ ''/v7.0/search''),
           bing_result_choice = choice,
           search_market = (case market_arg of None \<Rightarrow> ''en-us'' | Some m \<Rightarrow> m),
           self_k = (case k_arg of None \<Rightarrow> 3 | Some n \<Rightarrow> n)\<rparr>, w)"
  by (simp add: BingSearch_init_def Retrieve_init_def Let_def)

text \<open>
  C4, the counterexample: with an empty credential and an empty endpoint the constructor
  returns an adapter; it does not fail.
\<close>

theorem construction_empty_counterexample:
  "BingSearch_init [] [] SNIPPET None None \<lparr>calls = [], stdout = []\<rparr> =
     (Inr \<lparr>bing_search_v7_subscription_key = [],
           bing_search_v7_endpoint = ''/v7.0/search'',
           bing_result_choice = SNIPPET,
           search_market = ''en-us'',
           self_k = 3\<rparr>, \<lparr>calls = [], stdout = []\<rparr>)"
  by (simp add: BingSearch_init_def Retrieve_init_def)

text \<open>
  C3 (as amended). The constructor tests whether the path occurs anywhere in the
  endpoint, not whether the endpoint ends with it. After construction the stored endpoint
  contains \<open>/v7.0/search\<close>; an endpoint that does not contain it gets it appended once,
  and then ends with it; an endpoint that contains it is stored as it is, so it ends with
  the path exactly when the caller's endpoint did. Constructing again from the stored
  endpoint gives the same adapter, and \<open>forward\<close> never changes the stored endpoint.
\<close>

theorem endpoint_normalisation:
  assumes "BingSearch_init subscription_key endpoint choice market_arg k_arg w = (Inr self, w')"
  shows "sublist ''/v7.0/search'' (bing_search_v7_endpoint self)
    \<and> (\<not> sublist ''/v7.0/search'' endpoint \<longrightarrow>
          bing_search_v7_endpoint self = endpoint @ ''/v7.0/search''
          \<and> suffix ''/v7.0/search'' (bing_search_v7_endpoint self))
    \<and> (sublist ''/v7.0/search'' endpoint \<longrightarrow> bing_search_v7_endpoint self = endpoint)
    \<and> (suffix ''/v7.0/search'' endpoint \<longrightarrow> suffix ''/v7.0/search'' (bing_search_v7_endpoint self))
    \<and> BingSearch_init subscription_key (bing_search_v7_endpoint self) choice market_arg k_arg w
          = (Inr self, w')
    \<and> (\<forall>env qi ko w1 r self2 w2. forward env qi ko (self, w1) = (r, self2, w2) \<longrightarrow>
          bing_search_v7_endpoint self2 = bing_search_v7_endpoint self)"
proof -
  from assms have e: "bing_search_v7_endpoint self =
      (if sublist ''/v7.0/search'' endpoint then endpoint else endpoint @ ''/v7.0/search'')"
    by (auto simp: BingSearch_init_def Retrieve_init_def Let_def)
  have 1: "sublist ''/v7.0/search'' (bing_search_v7_endpoint self)"
    by (simp add: e)
  have 2: "BingSearch_init subscription_key (bing_search_v7_endpoint self) choice market_arg k_arg w
          = (Inr self, w')"
    using assms 1 by (auto simp: BingSearch_init_def Retrieve_init_def Let_def split: if_splits)
  have 3: "\<forall>env qi ko w1 r self2 w2. forward env qi ko (self, w1) = (r, self2, w2) \<longrightarrow>
          bing_search_v7_endpoint self2 = bing_search_v7_endpoint self"
    by (auto dest: forward_self)
  show ?thesis using 1 2 3 by (simp add: e suffix_def)
qed

theorem endpoint_normalisation_witness:
  "BingSearch_init ''key'' ''https://api.bing.microsoft.com'' SNIPPET None None empty_world
     = (Inr (example_adapter SNIPPET), empty_world)
   \<and> \<not> sublist ''/v7.0/search'' ''https://api.bing.microsoft.com''
   \<and> bing_search_v7_endpoint (example_adapter SNIPPET)
       = ''https://api.bing.microsoft.com'' @ ''/v7.0/search''
   \<and> suffix ''/v7.0/search'' (bing_search_v7_endpoint (example_adapter SNIPPET))
   \<and> BingSearch_init ''key'' (bing_search_v7_endpoint (example_adapter SNIPPET)) SNIPPET None None
        empty_world = (Inr (example_adapter SNIPPET), empty_world)"
proof -
  have n: "\<not> sublist ''/v7.0/search'' ''https://api.bing.microsoft.com''"
    by (simp add: sublist_Cons_right)
  have h: "BingSearch_init ''key'' ''https://api.bing.microsoft.com'' SNIPPET None None empty_world
     = (Inr (example_adapter SNIPPET), empty_world)"
    using n by (simp add: BingSearch_init_def Retrieve_init_def example_adapter_def)
  show ?thesis
    using endpoint_normalisation [OF h] h n by blast
qed

text \<open>
  C3, the counterexample: an endpoint that contains the path followed by a slash is
  stored unchanged, and the stored endpoint does not end with the path.
\<close>

theorem endpoint_suffix_counterexample:
  "fst (BingSearch_init ''key'' ''https://api.bing.microsoft.com/v7.0/search/'' SNIPPET None None
          \<lparr>calls = [], stdout = []\<rparr>) =
     Inr \<lparr>bing_search_v7_subscription_key = ''key'',
          bing_search_v7_endpoint = ''https://api.bing.microsoft.com/v7.0/search/'',
          bing_result_choice = SNIPPET,
          search_market = ''en-us'',
          self_k = 3\<rparr>
   \<and> \<not> suffix ''/v7.0/search'' ''https://api.bing.microsoft.com/v7.0/search/''"
  by (simp add: BingSearch_init_def Retrieve_init_def sublist_Cons_right suffix_to_prefix)

subsection \<open>The frame of \<open>forward\<close>\<close>

text \<open>
  C8. A call of \<open>forward\<close>, with or without an override, returns the adapter it was
  given: the credential, the endpoint, the result mode, the market and the default count
  are unchanged. The count of the call is the override when there is one and the
  configured default otherwise: the call is the loop over the surviving queries run with
  that count, every primary request it records carries that count as its \<open>count\<close>
  parameter, and a call that returns a prediction has sent exactly the requests of the
  surviving queries with that count. A call with the override \<open>k'\<close> gives the result and
  the transport calls that a call without override gives on an adapter whose default is
  \<open>k'\<close>, and still returns the adapter with its own default. A later call without
  override, on the adapter and the world the first call returned, is the loop run with
  the configured default.
\<close>

theorem override_frame:
  assumes "forward env qi ko (self, w) = (r, self', w')"
  shows "self' = self
    \<and> bing_search_v7_subscription_key self' = bing_search_v7_subscription_key self
    \<and> bing_search_v7_endpoint self' = bing_search_v7_endpoint self
    \<and> bing_result_choice self' = bing_result_choice self
    \<and> search_market self' = search_market self
    \<and> self_k self' = self_k self
    \<and> forward env qi (Some k') (self, w) =
         (case forward env qi None (self\<lparr>self_k := k'\<rparr>, w) of (r1, s1, w1) \<Rightarrow> (r1, self, w1))
    \<and> forward env qi2 None (self', w') = forward env qi2 (Some (self_k self)) (self, w')
    \<and> forward env qi ko (self, w)
         = forward_loop env (surviving qi) (case ko of Some n \<Rightarrow> n | None \<Rightarrow> self_k self) []
             (self, w)
    \<and> forward env qi2 None (self', w')
         = forward_loop env (surviving qi2) (self_k self) [] (self, w')
    \<and> (\<exists>new. calls w' = calls w @ new
          \<and> (\<forall>c\<in>set new. req_params c \<noteq> [] \<longrightarrow>
                (''count'', PInt (case ko of Some n \<Rightarrow> n | None \<Rightarrow> self_k self))
                  \<in> set (req_params c))
          \<and> (\<forall>p. r = Inr p \<longrightarrow>
                filter (\<lambda>c. req_params c \<noteq> []) new
                  = map (\<lambda>q. search_request self q
                               (case ko of Some n \<Rightarrow> n | None \<Rightarrow> self_k self))
                      (surviving qi)))"
proof -
  let ?k = "case ko of Some n \<Rightarrow> n | None \<Rightarrow> self_k self"
  have e: "effective_k self ko = ?k" by (simp add: effective_k_def)
  have s: "self' = self" using assms by (rule forward_self)
  have o: "forward env qi (Some k') (self, w) =
         (case forward env qi None (self\<lparr>self_k := k'\<rparr>, w) of (r1, s1, w1) \<Rightarrow> (r1, self, w1))"
  proof -
    obtain r1 s1 w1 where f: "forward_loop env (surviving qi) k' [] (self, w) = (r1, s1, w1)"
      by (cases "forward_loop env (surviving qi) k' [] (self, w)") auto
    then have "s1 = self" by (rule forward_loop_self)
    with f show ?thesis
      by (simp add: forward_def effective_k_def forward_loop_self_k)
  qed
  have n: "forward env qi2 None (self', w') = forward env qi2 (Some (self_k self)) (self, w')"
    by (simp add: s forward_def effective_k_def)
  have p: "forward env qi ko (self, w) = forward_loop env (surviving qi) ?k [] (self, w)"
    by (simp add: forward_def e)
  have d: "forward env qi2 None (self', w')
         = forward_loop env (surviving qi2) (self_k self) [] (self, w')"
    by (simp add: s forward_def effective_k_def)
  have t: "\<exists>new. calls w' = calls w @ new
          \<and> (\<forall>c\<in>set new. req_params c \<noteq> [] \<longrightarrow> (''count'', PInt ?k) \<in> set (req_params c))
          \<and> (\<forall>p. r = Inr p \<longrightarrow>
                filter (\<lambda>c. req_params c \<noteq> []) new
                  = map (\<lambda>q. search_request self q ?k) (surviving qi))"
  proof -
    from assms p have "forward_loop env (surviving qi) ?k [] (self, w) = (r, self', w')"
      by simp
    from forward_loop_trace[OF this] obtain new where
      1: "calls w' = calls w @ new"
      and 2: "\<forall>c\<in>set new. req_params c = []
               \<or> (\<exists>q\<in>set (surviving qi). c = search_request self q ?k)"
      and 3: "\<forall>p. r = Inr p \<longrightarrow>
           filter (\<lambda>c. req_params c \<noteq> []) new = map (\<lambda>q. search_request self q ?k) (surviving qi)"
      by blast
    have "(''count'', PInt ?k) \<in> set (req_params c)" if "c \<in> set new" "req_params c \<noteq> []" for c
    proof -
      from 2 that obtain q where "c = search_request self q ?k" by blast
      then show ?thesis by (simp add: search_request_def)
    qed
    with 1 3 show ?thesis by blast
  qed
  show ?thesis using s o n p d t by simp
qed

theorem override_frame_witness:
  "forward two_bodies_env (Str ''q'') (Some 1) (example_adapter SNIPPET, empty_world)
     = (Inr \<lparr>passages = [\<lparr>long_text = JStr ''first''\<rparr>]\<rparr>, example_adapter SNIPPET,
        \<lparr>calls = [search_request (example_adapter SNIPPET) ''q'' 1], stdout = []\<rparr>)
   \<and> self_k (example_adapter SNIPPET) = 3
   \<and> forward two_bodies_env (Str ''r'') None
        (example_adapter SNIPPET,
         \<lparr>calls = [search_request (example_adapter SNIPPET) ''q'' 1], stdout = []\<rparr>)
     = (Inr \<lparr>passages = [\<lparr>long_text = JStr ''third''\<rparr>, \<lparr>long_text = JStr ''fourth''\<rparr>,
                         \<lparr>long_text = JStr ''fifth''\<rparr>]\<rparr>,
        example_adapter SNIPPET,
        \<lparr>calls = [search_request (example_adapter SNIPPET) ''q'' 1,
                  search_request (example_adapter SNIPPET) ''r'' 3], stdout = []\<rparr>)"
proof -
  let ?w1 = "\<lparr>calls = [search_request (example_adapter SNIPPET) ''q'' 1], stdout = []\<rparr>"
  have h: "forward two_bodies_env (Str ''q'') (Some 1) (example_adapter SNIPPET, empty_world)
     = (Inr \<lparr>passages = [\<lparr>long_text = JStr ''first''\<rparr>]\<rparr>, example_adapter SNIPPET, ?w1)"
    by (simp add: run_defs example_defs two_bodies_env_def)
  have k: "self_k (example_adapter SNIPPET) = 3"
    by (simp add: example_adapter_def)
  have l: "forward_loop two_bodies_env (surviving (Str ''r'')) (self_k (example_adapter SNIPPET)) []
        (example_adapter SNIPPET, ?w1)
     = (Inr \<lparr>passages = [\<lparr>long_text = JStr ''third''\<rparr>, \<lparr>long_text = JStr ''fourth''\<rparr>,
                         \<lparr>long_text = JStr ''fifth''\<rparr>]\<rparr>,
        example_adapter SNIPPET,
        \<lparr>calls = [search_request (example_adapter SNIPPET) ''q'' 1,
                  search_request (example_adapter SNIPPET) ''r'' 3], stdout = []\<rparr>)"
    by (simp add: run_defs example_defs two_bodies_env_def upt_rec)
  have g: "forward two_bodies_env (Str ''r'') None (example_adapter SNIPPET, ?w1)
     = forward_loop two_bodies_env (surviving (Str ''r'')) (self_k (example_adapter SNIPPET)) []
        (example_adapter SNIPPET, ?w1)"
    using override_frame [OF h, of 2 "Str ''r''"] by (elim conjE) assumption
  show ?thesis using h k g l by simp
qed

subsection \<open>Snippet mode with enough results\<close>

text \<open>
  C2. In \<open>SNIPPET\<close> mode, for a sequence of non-empty queries, when the response to
  each query holds the results key with at least \<open>k\<close> snippet entries (\<open>k\<close> the effective
  count), \<open>forward\<close> returns the prediction whose passages are the provider's snippets,
  unmodified: the queries in input order, and for each query its first \<open>k\<close> snippets in
  the order of the response. There is one list of snippets per query and each has
  \<open>nat k\<close> elements, that is \<open>k\<close> for a count that is not negative. Exactly one request
  per query has been recorded, in query order. The effective count is the override when
  there is one and the configured default otherwise.
\<close>

theorem snippet_retrieval:
  assumes "bing_result_choice self = SNIPPET"
    and "\<forall>q\<in>set qs. q \<noteq> []"
    and "provider_snippets env self (effective_k self ko) (calls w) qs = Some sss"
  shows "forward env (Strs qs) ko (self, w)
           = (Inr \<lparr>passages = map (\<lambda>s. \<lparr>long_text = s\<rparr>) (concat sss)\<rparr>, self,
              w\<lparr>calls := calls w @ map (\<lambda>q. search_request self q (effective_k self ko)) qs\<rparr>)
    \<and> length sss = length qs
    \<and> (\<forall>ss\<in>set sss. length ss = nat (effective_k self ko))
    \<and> length (concat sss) = length qs * nat (effective_k self ko)
    \<and> (0 \<le> effective_k self ko \<longrightarrow>
          (\<forall>ss\<in>set sss. int (length ss) = effective_k self ko))
    \<and> effective_k self ko = (case ko of Some n \<Rightarrow> n | None \<Rightarrow> self_k self)"
proof -
  have 5: "effective_k self ko = (case ko of Some n \<Rightarrow> n | None \<Rightarrow> self_k self)"
    by (simp add: effective_k_def)
  from assms(2) have f: "filter (\<lambda>q. q \<noteq> []) qs = qs" by (simp add: filter_id_conv)
  have 1: "forward env (Strs qs) ko (self, w)
           = (Inr \<lparr>passages = map (\<lambda>s. \<lparr>long_text = s\<rparr>) (concat sss)\<rparr>, self,
              w\<lparr>calls := calls w @ map (\<lambda>q. search_request self q (effective_k self ko)) qs\<rparr>)"
    using forward_loop_snippets[OF assms(1,3), of "[]"] by (simp add: forward_def surviving_def f)
  note 2 = provider_snippets_shape[OF assms(3)]
  have 3: "length (concat sss) = length qs * nat (effective_k self ko)"
    using length_concat_uniform[of sss "nat (effective_k self ko)"] 2 by simp
  from 2 have 4: "0 \<le> effective_k self ko \<longrightarrow>
          (\<forall>ss\<in>set sss. int (length ss) = effective_k self ko)" by simp
  show ?thesis using 1 2 3 4 5 by simp
qed

theorem snippet_retrieval_witness:
  "forward two_bodies_env (Strs [''q'', ''r'']) (Some 2) (example_adapter SNIPPET, empty_world)
     = (Inr \<lparr>passages = [\<lparr>long_text = JStr ''first''\<rparr>, \<lparr>long_text = JStr ''second''\<rparr>,
                         \<lparr>long_text = JStr ''third''\<rparr>, \<lparr>long_text = JStr ''fourth''\<rparr>]\<rparr>,
        example_adapter SNIPPET,
        \<lparr>calls = [search_request (example_adapter SNIPPET) ''q'' 2,
                  search_request (example_adapter SNIPPET) ''r'' 2], stdout = []\<rparr>)"
proof -
  have m: "bing_result_choice (example_adapter SNIPPET) = SNIPPET"
    by (simp add: example_adapter_def)
  have n: "\<forall>q\<in>set [''q'', ''r'']. q \<noteq> []" by simp
  have p: "provider_snippets two_bodies_env (example_adapter SNIPPET)
             (effective_k (example_adapter SNIPPET) (Some 2)) (calls empty_world) [''q'', ''r'']
           = Some [[JStr ''first'', JStr ''second''], [JStr ''third'', JStr ''fourth'']]"
    by (simp add: effective_k_def response_snippets_def first_snippets_def result_entries_def
        snippet_of_def two_bodies_env_def example_body_def empty_world_def search_request_def
        numeral_2_eq_2)
  show ?thesis
    using snippet_retrieval [OF m n p] by (simp add: effective_k_def empty_world_def)
qed

subsection \<open>Fewer results than asked for\<close>

text \<open>
  C1 (the code at the failing input). The example body holds two results and the
  adapter's default count is 3. The claim asks for two passages; \<open>_search\<close> indexes
  \<open>range(k)\<close> without looking at the number of results, and the call ends with
  \<open>IndexError\<close> in both result modes, after the primary request.
\<close>

theorem fewer_results_IndexError:
  "forward (stub_env example_body None) (Str ''q'') None (example_adapter SNIPPET, empty_world)
     = (Inl IndexError, example_adapter SNIPPET,
        \<lparr>calls = [search_request (example_adapter SNIPPET) ''q'' 3], stdout = []\<rparr>)
   \<and> forward (stub_env example_body (Some (\<lambda>page. page))) (Str ''q'') None
        (example_adapter WEBPAGE, empty_world)
     = (Inl IndexError, example_adapter WEBPAGE,
        \<lparr>calls = [search_request (example_adapter WEBPAGE) ''q'' 3], stdout = []\<rparr>)"
  by (simp add: run_defs example_defs upt_rec)

subsection \<open>A response without the results key\<close>

text \<open>
  C6. When the call of a query is answered, the body parses, and the test
  \<open>"webPages" in response_json\<close> is false (for a dict: the key is absent), \<open>_search\<close>
  returns no passage and raises nothing; the loop goes on with the remaining queries and
  the accumulator it had, and so does \<open>forward\<close>: apart from the one recorded call,
  the run is the run without that query.
\<close>

theorem missing_results_key:
  assumes "requests_get env (calls w) (search_request self q k') = Some resp"
    and "resp_json resp = Some rj"
    and "py_in ''webPages'' rj = Inr False"
  shows "search env q k' (self, w)
           = (Inr [], self, w\<lparr>calls := calls w @ [search_request self q k']\<rparr>)
    \<and> forward_loop env (q # rest) k' acc (self, w)
           = forward_loop env rest k' acc (self, w\<lparr>calls := calls w @ [search_request self q k']\<rparr>)
    \<and> (q \<noteq> [] \<and> effective_k self ko = k' \<longrightarrow>
          forward env (Strs (q # rest)) ko (self, w)
           = forward env (Strs rest) ko (self, w\<lparr>calls := calls w @ [search_request self q k']\<rparr>))"
proof -
  have s: "search env q k' (self, w)
           = (Inr [], self, w\<lparr>calls := calls w @ [search_request self q k']\<rparr>)"
    using assms by (simp add: search_def Let_def)
  then show ?thesis
    by (simp add: forward_def surviving_def)
qed

theorem missing_results_key_witness:
  "py_in ''webPages'' (JObj [(''_type'', JStr ''SearchResponse'')]) = Inr False
   \<and> search (stub_env (JObj [(''_type'', JStr ''SearchResponse'')]) None) ''q'' 3
        (example_adapter SNIPPET, empty_world)
      = (Inr [], example_adapter SNIPPET,
         empty_world\<lparr>calls := calls empty_world @ [search_request (example_adapter SNIPPET) ''q'' 3]\<rparr>)
   \<and> forward (stub_env (JObj [(''_type'', JStr ''SearchResponse'')]) None) (Strs [''q'', ''r'']) None
        (example_adapter SNIPPET, empty_world)
      = forward (stub_env (JObj [(''_type'', JStr ''SearchResponse'')]) None) (Strs [''r'']) None
        (example_adapter SNIPPET,
         empty_world\<lparr>calls := calls empty_world @ [search_request (example_adapter SNIPPET) ''q'' 3]\<rparr>)"
proof -
  let ?body = "JObj [(''_type'', JStr ''SearchResponse'')]"
  have a: "requests_get (stub_env ?body None) (calls empty_world)
             (search_request (example_adapter SNIPPET) ''q'' 3)
           = Some \<lparr>resp_text = ''page'', resp_json = Some ?body\<rparr>"
    by (simp add: stub_env_def)
  have b: "resp_json \<lparr>resp_text = ''page'', resp_json = Some ?body\<rparr> = Some ?body"
    by simp
  have c: "py_in ''webPages'' ?body = Inr False"
    by simp
  have k: "effective_k (example_adapter SNIPPET) None = 3"
    by (simp add: effective_k_def example_adapter_def)
  show ?thesis
    using missing_results_key [OF a b c, of "[''r'']" "[]" None] c k by simp
qed

subsection \<open>A count that is not positive\<close>

text \<open>
  C10. Let the effective count \<open>k\<close> of a call of \<open>forward\<close> (the override, or the
  configured default) be at most 0, in \<open>SNIPPET\<close> mode or, with the text extraction
  available, in \<open>WEBPAGE\<close> mode. For a query that is answered with a body that parses
  and contains the results key, \<open>_search\<close> returns no passage and raises nothing, having
  issued the primary request with \<open>count = k\<close>; the loop goes on with the remaining
  queries, \<open>forward\<close> on that single non-empty query returns the empty prediction with
  that one request recorded, and \<open>forward\<close> on a sequence starting with it is
  \<open>forward\<close> on the rest of the sequence after that request. When every surviving query
  of a sequence is answered so, \<open>forward\<close> returns the empty prediction and has
  recorded exactly one primary request per surviving query, in order.
\<close>

theorem nonpositive_count:
  assumes "k' \<le> 0"
    and "bing_result_choice self = WEBPAGE \<longrightarrow> bs4 env \<noteq> None"
    and "(case ko of Some n \<Rightarrow> n | None \<Rightarrow> self_k self) = k'"
  shows "(requests_get env (calls w) (search_request self q k') = Some resp
          \<and> resp_json resp = Some rj \<and> py_in ''webPages'' rj = Inr True \<longrightarrow>
            search env q k' (self, w)
              = (Inr [], self, w\<lparr>calls := calls w @ [search_request self q k']\<rparr>)
          \<and> forward_loop env (q # rest) k' acc (self, w)
              = forward_loop env rest k' acc
                  (self, w\<lparr>calls := calls w @ [search_request self q k']\<rparr>)
          \<and> (q \<noteq> [] \<longrightarrow>
                forward env (Str q) ko (self, w)
                  = (Inr \<lparr>passages = []\<rparr>, self,
                     w\<lparr>calls := calls w @ [search_request self q k']\<rparr>)
              \<and> forward env (Strs (q # rest)) ko (self, w)
                  = forward env (Strs rest) ko
                      (self, w\<lparr>calls := calls w @ [search_request self q k']\<rparr>)))
    \<and> (holds_results_key env self k' (calls w) (filter (\<lambda>q. q \<noteq> []) qs) \<longrightarrow>
          forward env (Strs qs) ko (self, w)
            = (Inr \<lparr>passages = []\<rparr>, self,
               w\<lparr>calls := calls w
                    @ map (\<lambda>q. search_request self q k') (filter (\<lambda>q. q \<noteq> []) qs)\<rparr>))
    \<and> (''count'', PInt k') \<in> set (req_params (search_request self q k'))"
proof -
  have e: "effective_k self ko = k'"
    using assms(3) by (simp add: effective_k_def)
  have A: "search env q k' (self, w)
              = (Inr [], self, w\<lparr>calls := calls w @ [search_request self q k']\<rparr>)
          \<and> forward_loop env (q # rest) k' acc (self, w)
              = forward_loop env rest k' acc
                  (self, w\<lparr>calls := calls w @ [search_request self q k']\<rparr>)
          \<and> (q \<noteq> [] \<longrightarrow>
                forward env (Str q) ko (self, w)
                  = (Inr \<lparr>passages = []\<rparr>, self,
                     w\<lparr>calls := calls w @ [search_request self q k']\<rparr>)
              \<and> forward env (Strs (q # rest)) ko (self, w)
                  = forward env (Strs rest) ko
                      (self, w\<lparr>calls := calls w @ [search_request self q k']\<rparr>))"
    if a: "requests_get env (calls w) (search_request self q k') = Some resp"
      "resp_json resp = Some rj" "py_in ''webPages'' rj = Inr True"
  proof -
    have s: "search env q k' (self, w)
              = (Inr [], self, w\<lparr>calls := calls w @ [search_request self q k']\<rparr>)"
      using assms(1,2) a by (rule search_nonpositive)
    then show ?thesis
      by (simp add: forward_def surviving_def e)
  qed
  have B: "forward env (Strs qs) ko (self, w)
            = (Inr \<lparr>passages = []\<rparr>, self,
               w\<lparr>calls := calls w
                    @ map (\<lambda>q. search_request self q k') (filter (\<lambda>q. q \<noteq> []) qs)\<rparr>)"
    if "holds_results_key env self k' (calls w) (filter (\<lambda>q. q \<noteq> []) qs)"
    using forward_loop_nonpositive[OF assms(1,2) that, of "[]"]
    by (simp add: forward_def surviving_def e)
  have C: "(''count'', PInt k') \<in> set (req_params (search_request self q k'))"
    by (simp add: search_request_def)
  show ?thesis using A B C by blast
qed

theorem nonpositive_count_witness:
  "forward (stub_env example_body (Some (\<lambda>page. page))) (Strs [''q'', [], ''r'']) (Some 0)
      (example_adapter WEBPAGE, empty_world)
     = (Inr \<lparr>passages = []\<rparr>, example_adapter WEBPAGE,
        \<lparr>calls = [search_request (example_adapter WEBPAGE) ''q'' 0,
                  search_request (example_adapter WEBPAGE) ''r'' 0], stdout = []\<rparr>)
   \<and> forward (stub_env example_body None) (Str ''q'') None
      ((example_adapter SNIPPET)\<lparr>self_k := - 2\<rparr>, empty_world)
     = (Inr \<lparr>passages = []\<rparr>, (example_adapter SNIPPET)\<lparr>self_k := - 2\<rparr>,
        \<lparr>calls = [search_request ((example_adapter SNIPPET)\<lparr>self_k := - 2\<rparr>) ''q'' (- 2)],
         stdout = []\<rparr>)"
proof -
  let ?env1 = "stub_env example_body (Some (\<lambda>page. page))"
  let ?env2 = "stub_env example_body None"
  let ?a2 = "(example_adapter SNIPPET)\<lparr>self_k := - 2\<rparr>"
  let ?resp = "\<lparr>resp_text = ''page'', resp_json = Some example_body\<rparr>"
  have c: "py_in ''webPages'' example_body = Inr True" by (simp add: example_body_def)
  have z1: "(0::int) \<le> 0" by simp
  have m1: "bing_result_choice (example_adapter WEBPAGE) = WEBPAGE \<longrightarrow> bs4 ?env1 \<noteq> None"
    by (simp add: stub_env_def)
  have k1: "(case Some 0 of Some n \<Rightarrow> n | None \<Rightarrow> self_k (example_adapter WEBPAGE)) = (0::int)"
    by simp
  have p1: "holds_results_key ?env1 (example_adapter WEBPAGE) 0 (calls empty_world)
              (filter (\<lambda>q. q \<noteq> []) [''q'', [], ''r''])"
    using c by (simp add: stub_env_def)
  have r1: "forward ?env1 (Strs [''q'', [], ''r'']) (Some 0) (example_adapter WEBPAGE, empty_world)
     = (Inr \<lparr>passages = []\<rparr>, example_adapter WEBPAGE,
        \<lparr>calls = [search_request (example_adapter WEBPAGE) ''q'' 0,
                  search_request (example_adapter WEBPAGE) ''r'' 0], stdout = []\<rparr>)"
    using nonpositive_count [OF z1 m1 k1, where w = empty_world and qs = "[''q'', [], ''r'']"] p1
    by (simp add: empty_world_def)
  have z2: "(- 2::int) \<le> 0" by simp
  have m2: "bing_result_choice ?a2 = WEBPAGE \<longrightarrow> bs4 ?env2 \<noteq> None"
    by (simp add: example_adapter_def)
  have k2: "(case None of Some n \<Rightarrow> n | None \<Rightarrow> self_k ?a2) = (- 2::int)"
    by simp
  have a2: "requests_get ?env2 (calls empty_world) (search_request ?a2 ''q'' (- 2)) = Some ?resp"
    by (simp add: stub_env_def)
  have b2: "resp_json ?resp = Some example_body" by simp
  have r2: "forward ?env2 (Str ''q'') None (?a2, empty_world)
     = (Inr \<lparr>passages = []\<rparr>, ?a2,
        \<lparr>calls = [search_request ?a2 ''q'' (- 2)], stdout = []\<rparr>)"
    using nonpositive_count [OF z2 m2 k2, where w = empty_world and q = "''q''" and resp = ?resp
        and rj = example_body] a2 b2 c
    by (simp add: empty_world_def)
  show ?thesis using r1 r2 by simp
qed

subsection \<open>Empty queries\<close>

text \<open>
  C7. An empty string, and a sequence of empty strings, give an empty prediction and
  leave the world as it was: no transport call is made. In general a sequence gives what
  the sequence without its empty strings gives, and no request recorded during a call of
  \<open>forward\<close> carries an empty query text.
\<close>

theorem empty_queries_filtered:
  "forward env (Str []) ko (self, w) = (Inr \<lparr>passages = []\<rparr>, self, w)
   \<and> ((\<forall>q\<in>set qs. q = []) \<longrightarrow>
        forward env (Strs qs) ko (self, w) = (Inr \<lparr>passages = []\<rparr>, self, w))
   \<and> forward env (Strs qs) ko (self, w)
        = forward env (Strs (filter (\<lambda>q. q \<noteq> []) qs)) ko (self, w)
   \<and> (forward env qi ko (self, w) = (r, self', w') \<longrightarrow>
        (\<exists>new. calls w' = calls w @ new
           \<and> (\<forall>c\<in>set new. (''q'', PStr []) \<notin> set (req_params c))))"
proof -
  have 1: "forward env (Str []) ko (self, w) = (Inr \<lparr>passages = []\<rparr>, self, w)"
    by (simp add: forward_def surviving_def)
  have 2: "forward env (Strs qs) ko (self, w) = (Inr \<lparr>passages = []\<rparr>, self, w)"
    if "\<forall>q\<in>set qs. q = []"
  proof -
    from that have "filter (\<lambda>q. q \<noteq> []) qs = []" by (simp add: filter_empty_conv)
    then show ?thesis by (simp add: forward_def surviving_def)
  qed
  have 3: "forward env (Strs qs) ko (self, w)
        = forward env (Strs (filter (\<lambda>q. q \<noteq> []) qs)) ko (self, w)"
    by (simp add: forward_def surviving_def)
  have 4: "\<exists>new. calls w' = calls w @ new
           \<and> (\<forall>c\<in>set new. (''q'', PStr []) \<notin> set (req_params c))"
    if f: "forward env qi ko (self, w) = (r, self', w')"
  proof -
    from f have "forward_loop env (surviving qi) (effective_k self ko) [] (self, w) = (r, self', w')"
      by (simp add: forward_def)
    from forward_loop_trace[OF this] obtain new where n: "calls w' = calls w @ new"
      "\<forall>c\<in>set new. req_params c = []
          \<or> (\<exists>q\<in>set (surviving qi). c = search_request self q (effective_k self ko))"
      by blast
    have ne: "\<forall>q\<in>set (surviving qi). q \<noteq> []"
      by (auto simp: surviving_def split: query_input.splits)
    have "(''q'', PStr []) \<notin> set (req_params c)" if c: "c \<in> set new" for c
    proof -
      from n(2) c consider "req_params c = []"
        | q where "q \<in> set (surviving qi)" "c = search_request self q (effective_k self ko)"
        by blast
      then show ?thesis
      proof cases
        case 1
        then show ?thesis by simp
      next
        case 2
        with ne have "q \<noteq> []" by blast
        with 2 show ?thesis by (simp add: search_request_def)
      qed
    qed
    with n(1) show ?thesis by blast
  qed
  show ?thesis using 1 2 3 4 by blast
qed

theorem empty_queries_filtered_witness:
  "forward (stub_env example_body None) (Strs [[], []]) None (example_adapter SNIPPET, empty_world)
       = (Inr \<lparr>passages = []\<rparr>, example_adapter SNIPPET, empty_world)
   \<and> forward (stub_env example_body None) (Str []) None (example_adapter SNIPPET, empty_world)
       = (Inr \<lparr>passages = []\<rparr>, example_adapter SNIPPET, empty_world)
   \<and> (\<exists>new. calls empty_world = calls empty_world @ new
         \<and> (\<forall>c\<in>set new. (''q'', PStr []) \<notin> set (req_params c)))"
proof -
  have h: "forward (stub_env example_body None) (Str []) None (example_adapter SNIPPET, empty_world)
       = (Inr \<lparr>passages = []\<rparr>, example_adapter SNIPPET, empty_world)"
    by (simp add: forward_def surviving_def)
  have e: "\<forall>q\<in>set [[], []]. q = ([]::string)" by simp
  show ?thesis
    using empty_queries_filtered [of "stub_env example_body None" None "example_adapter SNIPPET"
        empty_world "[[], []]" "Str []" "Inr \<lparr>passages = []\<rparr>" "example_adapter SNIPPET" empty_world]
      h e by simp
qed

subsection \<open>Transport failures\<close>

text \<open>
  C5. Let \<open>new\<close> be the calls a run of \<open>forward\<close> adds to the log. If any of them,
  a primary request or a page fetch, raised, then the run ended with
  \<open>TransportFailure\<close> and that call is the last one recorded: nothing was requested
  after it. Conversely a run that ended with \<open>TransportFailure\<close> made at least one
  call and its last call raised. A run that returns a prediction issued the primary
  request of every surviving query, in order: the prediction is complete.
\<close>

theorem transport_failure_aborts:
  assumes "forward env qi ko (self, w) = (r, self', w')"
  shows "\<exists>new. calls w' = calls w @ new
    \<and> (\<forall>n<length new. requests_get env (calls w @ take n new) (new ! n) = None \<longrightarrow>
          r = Inl TransportFailure \<and> Suc n = length new)
    \<and> (r = Inl TransportFailure \<longrightarrow>
          new \<noteq> [] \<and> requests_get env (calls w @ butlast new) (last new) = None)
    \<and> (\<forall>p. r = Inr p \<longrightarrow>
          filter (\<lambda>c. req_params c \<noteq> []) new
            = map (\<lambda>q. search_request self q (effective_k self ko)) (surviving qi))"
proof -
  from assms
  have "forward_loop env (surviving qi) (effective_k self ko) [] (self, w) = (r, self', w')"
    by (simp add: forward_def)
  from forward_loop_trace[OF this] obtain new where n: "calls w' = calls w @ new"
    "trace_ok env (calls w) new (r = Inl TransportFailure)"
    "\<forall>p. r = Inr p \<longrightarrow>
          filter (\<lambda>c. req_params c \<noteq> []) new
            = map (\<lambda>q. search_request self q (effective_k self ko)) (surviving qi)"
    by blast
  have a: "\<forall>n<length new. requests_get env (calls w @ take n new) (new ! n) = None \<longrightarrow>
          r = Inl TransportFailure \<and> Suc n = length new"
    using trace_ok_first_failure[OF n(2)] by blast
  have b: "r = Inl TransportFailure \<longrightarrow>
          new \<noteq> [] \<and> requests_get env (calls w @ butlast new) (last new) = None"
    using n(2) by (simp add: trace_ok_def)
  show ?thesis using n(1,3) a b by blast
qed

theorem transport_failure_aborts_witness:
  "forward (failing_env 1) (Strs [''q'', ''r'']) (Some 1) (example_adapter WEBPAGE, empty_world)
     = (Inl TransportFailure, example_adapter WEBPAGE,
        \<lparr>calls = [search_request (example_adapter WEBPAGE) ''q'' 1, page_request (JStr ''a.example'')],
         stdout = []\<rparr>)
   \<and> forward (failing_env 1) (Strs [''q'', ''r'', ''s'']) (Some 1) (example_adapter SNIPPET, empty_world)
     = (Inl TransportFailure, example_adapter SNIPPET,
        \<lparr>calls = [search_request (example_adapter SNIPPET) ''q'' 1,
                  search_request (example_adapter SNIPPET) ''r'' 1],
         stdout = [TransportFailure]\<rparr>)
   \<and> (\<exists>new. [search_request (example_adapter WEBPAGE) ''q'' 1, page_request (JStr ''a.example'')]
               = calls empty_world @ new
         \<and> new \<noteq> []
         \<and> requests_get (failing_env 1) (calls empty_world @ butlast new) (last new) = None)"
proof -
  have h: "forward (failing_env 1) (Strs [''q'', ''r'']) (Some 1) (example_adapter WEBPAGE, empty_world)
     = (Inl TransportFailure, example_adapter WEBPAGE,
        \<lparr>calls = [search_request (example_adapter WEBPAGE) ''q'' 1, page_request (JStr ''a.example'')],
         stdout = []\<rparr>)"
    by (simp add: run_defs example_defs)
  have g: "forward (failing_env 1) (Strs [''q'', ''r'', ''s'']) (Some 1) (example_adapter SNIPPET, empty_world)
     = (Inl TransportFailure, example_adapter SNIPPET,
        \<lparr>calls = [search_request (example_adapter SNIPPET) ''q'' 1,
                  search_request (example_adapter SNIPPET) ''r'' 1],
         stdout = [TransportFailure]\<rparr>)"
    by (simp add: run_defs example_defs)
  from transport_failure_aborts [OF h] obtain new where
    n: "[search_request (example_adapter WEBPAGE) ''q'' 1, page_request (JStr ''a.example'')]
          = calls empty_world @ new"
      "new \<noteq> []"
      "requests_get (failing_env 1) (calls empty_world @ butlast new) (last new) = None"
    by auto
  have e: "\<exists>new. [search_request (example_adapter WEBPAGE) ''q'' 1, page_request (JStr ''a.example'')]
               = calls empty_world @ new
         \<and> new \<noteq> []
         \<and> requests_get (failing_env 1) (calls empty_world @ butlast new) (last new) = None"
    using n by (intro exI[of _ new]) simp
  show ?thesis
    using h g e by simp
qed

subsection \<open>The missing text extraction\<close>

text \<open>
  C9 (as amended). \<open>forward\<close> ends with \<open>ImportError\<close> only if the mode is
  \<open>WEBPAGE\<close> and the extraction is unavailable (so never in \<open>SNIPPET\<close> mode), and
  the constructor never does. The import is reached at its point of use, after the page
  fetches: \<open>_search\<close> ends with \<open>ImportError\<close> exactly when the mode is \<open>WEBPAGE\<close>,
  the extraction is unavailable, the primary request was answered with a body that parses
  and contains the results key, the \<open>k\<close> display urls were read and every page fetch
  was answered.
\<close>

theorem missing_capability:
  "(forward env qi ko (self, w) = (Inl ImportError, self', w') \<longrightarrow>
      bing_result_choice self = WEBPAGE \<and> bs4 env = None)
   \<and> fst (BingSearch_init subscription_key endpoint choice market_arg k_arg w0) \<noteq> Inl ImportError
   \<and> (search env q k' (self, w) = (Inl ImportError, self', w') \<longleftrightarrow>
        self' = self \<and> bing_result_choice self = WEBPAGE \<and> bs4 env = None
        \<and> (\<exists>resp rj urls pages.
              requests_get env (calls w) (search_request self q k') = Some resp
              \<and> resp_json resp = Some rj
              \<and> py_in ''webPages'' rj = Inr True
              \<and> comprehension (result_field rj ''displayUrl'') (py_range k') = Inr urls
              \<and> fetch_pages env urls (w\<lparr>calls := calls w @ [search_request self q k']\<rparr>)
                    = (Inr pages, w')))"
proof -
  have 1: "bing_result_choice self = WEBPAGE \<and> bs4 env = None"
    if "forward env qi ko (self, w) = (Inl ImportError, self', w')"
    using that unfolding forward_def by (simp add: forward_loop_ImportError)
  have 2: "fst (BingSearch_init subscription_key endpoint choice market_arg k_arg w0) \<noteq> Inl ImportError"
    by (simp add: BingSearch_init_def Let_def)
  have 3: "self' = self \<and> bing_result_choice self = WEBPAGE \<and> bs4 env = None
        \<and> (\<exists>resp rj urls pages.
              requests_get env (calls w) (search_request self q k') = Some resp
              \<and> resp_json resp = Some rj
              \<and> py_in ''webPages'' rj = Inr True
              \<and> comprehension (result_field rj ''displayUrl'') (py_range k') = Inr urls
              \<and> fetch_pages env urls (w\<lparr>calls := calls w @ [search_request self q k']\<rparr>)
                    = (Inr pages, w'))"
    if s: "search env q k' (self, w) = (Inl ImportError, self', w')"
  proof -
    from s have a: "self' = self" by (rule search_self)
    from s have b: "bing_result_choice self = WEBPAGE \<and> bs4 env = None" by (rule search_ImportError)
    from s b have "\<exists>resp rj urls pages.
              requests_get env (calls w) (search_request self q k') = Some resp
              \<and> resp_json resp = Some rj
              \<and> py_in ''webPages'' rj = Inr True
              \<and> comprehension (result_field rj ''displayUrl'') (py_range k') = Inr urls
              \<and> fetch_pages env urls (w\<lparr>calls := calls w @ [search_request self q k']\<rparr>)
                    = (Inr pages, w')"
      by (auto simp: search_def Let_def split: option.splits sum.splits if_splits prod.splits
          dest: py_in_error extraction_error fetch_pages_error)
    with a b show ?thesis by blast
  qed
  have 4: "search env q k' (self, w) = (Inl ImportError, self', w')"
    if "self' = self" "bing_result_choice self = WEBPAGE" "bs4 env = None"
      "requests_get env (calls w) (search_request self q k') = Some resp"
      "resp_json resp = Some rj" "py_in ''webPages'' rj = Inr True"
      "comprehension (result_field rj ''displayUrl'') (py_range k') = Inr urls"
      "fetch_pages env urls (w\<lparr>calls := calls w @ [search_request self q k']\<rparr>) = (Inr pages, w')"
    for resp rj urls pages
    using that by (simp add: search_def Let_def)
  show ?thesis using 1 2 3 4 by blast
qed

theorem missing_capability_witness:
  "forward (stub_env example_body None) (Str ''q'') (Some 2) (example_adapter WEBPAGE, empty_world)
     = (Inl ImportError, example_adapter WEBPAGE,
        \<lparr>calls = [search_request (example_adapter WEBPAGE) ''q'' 2,
                  page_request (JStr ''a.example''), page_request (JStr ''b.example'')],
         stdout = []\<rparr>)
   \<and> bing_result_choice (example_adapter WEBPAGE) = WEBPAGE
   \<and> bs4 (stub_env example_body None) = None"
proof -
  have h: "forward (stub_env example_body None) (Str ''q'') (Some 2) (example_adapter WEBPAGE, empty_world)
     = (Inl ImportError, example_adapter WEBPAGE,
        \<lparr>calls = [search_request (example_adapter WEBPAGE) ''q'' 2,
                  page_request (JStr ''a.example''), page_request (JStr ''b.example'')],
         stdout = []\<rparr>)"
    by (simp add: run_defs example_defs upt_rec)
  show ?thesis
    using missing_capability [of "stub_env example_body None" "Str ''q''" "Some 2"
        "example_adapter WEBPAGE" empty_world "example_adapter WEBPAGE"
        "\<lparr>calls = [search_request (example_adapter WEBPAGE) ''q'' 2,
                  page_request (JStr ''a.example''), page_request (JStr ''b.example'')],
         stdout = []\<rparr>"] h
    by simp
qed

text \<open>
  C9, the counterexample: in \<open>WEBPAGE\<close> mode, with the extraction unavailable, a query
  whose response lacks the results key gives an empty prediction; no failure is raised.
\<close>

theorem missing_capability_counterexample:
  "bing_result_choice (example_adapter WEBPAGE) = WEBPAGE
   \<and> bs4 (stub_env (JObj [(''_type'', JStr ''SearchResponse'')]) None) = None
   \<and> forward (stub_env (JObj [(''_type'', JStr ''SearchResponse'')]) None) (Str ''q'') None
        (example_adapter WEBPAGE, empty_world)
      = (Inr \<lparr>passages = []\<rparr>, example_adapter WEBPAGE,
         \<lparr>calls = [search_request (example_adapter WEBPAGE) ''q'' 3], stdout = []\<rparr>)"
  by (simp add: run_defs example_defs)

end
